theory Spec2Isabelle
  imports Main "HOL-Library.Multiset"
begin

unbundle bit_operations_syntax

section \<open>Strings and bytes\<close>

text \<open>
  A Python \<open>str\<close> is modelled as a \<open>string\<close> whose characters are the code points
  0..255; \<open>code\<close> reads the code point. \<open>str.encode()\<close> is UTF-8: a code point below
  128 is one byte, the others (128..255) are two.
\<close>

definition code :: "char \<Rightarrow> int" where
  "code c = of_char c"

definition utf8 :: "string \<Rightarrow> int list" where
  "utf8 s = concat (map (\<lambda>c. if code c < 128 then [code c]
                                else [192 + code c div 64, 128 + code c mod 64]) s)"

section \<open>hashlib.md5\<close>

text \<open>32-bit words are integers in \<open>[0, 2^32)\<close>; every addition is reduced by \<open>w32\<close>.\<close>

definition w32 :: "int \<Rightarrow> int" where
  "w32 x = x mod 4294967296"

definition rotl :: "nat \<Rightarrow> int \<Rightarrow> int" where
  "rotl n x = w32 (push_bit n x) OR drop_bit (32 - n) x"

definition not32 :: "int \<Rightarrow> int" where
  "not32 x = 4294967295 - x"

fun le_bytes :: "nat \<Rightarrow> int \<Rightarrow> int list" where
  "le_bytes 0 v = []"
| "le_bytes (Suc k) v = v mod 256 # le_bytes k (v div 256)"

fun le_words :: "int list \<Rightarrow> int list" where
  "le_words (a # b # c # d # r) = (a + 256 * (b + 256 * (c + 256 * d))) # le_words r"
| "le_words _ = []"

fun chunks :: "nat \<Rightarrow> 'a list \<Rightarrow> 'a list list" where
  "chunks 0 xs = []"
| "chunks (Suc n) xs = take 16 xs # chunks n (drop 16 xs)"

definition md5_pad :: "int list \<Rightarrow> int list" where
  "md5_pad m = m @ [128] @ replicate ((119 - length m mod 64) mod 64) 0
                 @ le_bytes 8 (8 * int (length m))"

definition md5_T :: "int list" where
  "md5_T = [0xd76aa478, 0xe8c7b756, 0x242070db, 0xc1bdceee, 0xf57c0faf, 0x4787c62a, 0xa8304613,
     0xfd469501, 0x698098d8, 0x8b44f7af, 0xffff5bb1, 0x895cd7be, 0x6b901122, 0xfd987193,
     0xa679438e, 0x49b40821, 0xf61e2562, 0xc040b340, 0x265e5a51, 0xe9b6c7aa, 0xd62f105d,
     0x02441453, 0xd8a1e681, 0xe7d3fbc8, 0x21e1cde6, 0xc33707d6, 0xf4d50d87, 0x455a14ed,
     0xa9e3e905, 0xfcefa3f8, 0x676f02d9, 0x8d2a4c8a, 0xfffa3942, 0x8771f681, 0x6d9d6122,
     0xfde5380c, 0xa4beea44, 0x4bdecfa9, 0xf6bb4b60, 0xbebfbc70, 0x289b7ec6, 0xeaa127fa,
     0xd4ef3085, 0x04881d05, 0xd9d4d039, 0xe6db99e5, 0x1fa27cf8, 0xc4ac5665, 0xf4292244,
     0x432aff97, 0xab9423a7, 0xfc93a039, 0x655b59c3, 0x8f0ccc92, 0xffeff47d, 0x85845dd1,
     0x6fa87e4f, 0xfe2ce6e0, 0xa3014314, 0x4e0811a1, 0xf7537e82, 0xbd3af235, 0x2ad7d2bb,
     0xeb86d391]"

definition md5_S :: "nat list" where
  "md5_S = [7, 12, 17, 22, 7, 12, 17, 22, 7, 12, 17, 22, 7, 12, 17, 22,
            5, 9, 14, 20, 5, 9, 14, 20, 5, 9, 14, 20, 5, 9, 14, 20,
            4, 11, 16, 23, 4, 11, 16, 23, 4, 11, 16, 23, 4, 11, 16, 23,
            6, 10, 15, 21, 6, 10, 15, 21, 6, 10, 15, 21, 6, 10, 15, 21]"

fun md5_step :: "int list \<Rightarrow> int list \<Rightarrow> nat \<times> int \<times> nat \<Rightarrow> int list" where
  "md5_step blk [a, b, c, d] (i, t, s) =
     (let f = (if i < 16 then (b AND c) OR (not32 b AND d)
               else if i < 32 then (d AND b) OR (not32 d AND c)
               else if i < 48 then b XOR c XOR d
               else c XOR (b OR not32 d));
          g = (if i < 16 then i
               else if i < 32 then (5 * i + 1) mod 16
               else if i < 48 then (3 * i + 5) mod 16
               else (7 * i) mod 16)
      in [d, w32 (b + rotl s (w32 (f + a + t + blk ! g))), b, c])"
| "md5_step blk st _ = st"

definition md5_block :: "int list \<Rightarrow> int list \<Rightarrow> int list" where
  "md5_block h blk =
     map2 (\<lambda>x y. w32 (x + y)) h (foldl (md5_step blk) h (zip [0..<64] (zip md5_T md5_S)))"

definition hexchar :: "int \<Rightarrow> char" where
  "hexchar n = ''0123456789abcdef'' ! nat n"

definition hex_byte :: "int \<Rightarrow> string" where
  "hex_byte b = [hexchar (b div 16), hexchar (b mod 16)]"

definition md5_hex :: "int list \<Rightarrow> string" where
  "md5_hex m = (let ws = le_words (md5_pad m) in
     concat (map (\<lambda>w. concat (map hex_byte (le_bytes 4 w)))
        (foldl md5_block [0x67452301, 0xefcdab89, 0x98badcfe, 0x10325476]
           (chunks (length ws div 16) ws))))"

section \<open>rotating\_baseline.py\<close>

type_synonym email = "string \<rightharpoonup> string"

definition get :: "('k \<rightharpoonup> 'v) \<Rightarrow> 'k \<Rightarrow> 'v \<Rightarrow> 'v" where
  "get d k dflt = (case d k of None \<Rightarrow> dflt | Some v \<Rightarrow> v)"

record state =
  rotation_number :: int
  processed_hashes :: "string \<rightharpoonup> bool"
  source_progress :: "string \<rightharpoonup> int"
  total_processed :: int
  run_history :: "(int \<times> int \<times> int) list"

text \<open>\<open>load_state\<close> when no state file exists. The history entries are
  (rotation, batch size, new emails); the timestamp is left out.\<close>

definition initial_state :: state where
  "initial_state = \<lparr>rotation_number = 0, processed_hashes = Map.empty,
     source_progress = Map.empty, total_processed = 0, run_history = []\<rparr>"

definition get_email_hash :: "email \<Rightarrow> string" where
  "get_email_hash e = take 12 (md5_hex (utf8
     (take 50 (get e ''subject'' '''') @ ''|'' @ get e ''from'' '''' @ ''|''
        @ take 100 (get e ''body'' ''''))))"

text \<open>The file system as the rotation sees it. An \<open>.eml\<close> directory is its sorted list
  of files, each with the result of \<open>parse_eml\<close> (\<open>None\<close> when parsing raised); an mbox is
  its list of messages (\<open>None\<close> for a message whose fields raise; an error while
  iterating ends the list there, since \<open>parse_mbox_batch\<close> catches it and returns what it
  has); \<open>None\<close> at the outer level is a path that does not exist. \<open>sample\<close> is the
  outcome of \<open>random.sample\<close>.\<close>

datatype enron_file = Missing | Malformed | Data "email list"

record env =
  eml_dir :: "string \<Rightarrow> email option list option"
  mbox :: "string \<Rightarrow> email option list option"
  enron :: enron_file
  sample :: "email list \<Rightarrow> nat \<Rightarrow> email list"

datatype error = JSONDecodeError

definition eml_directories :: "string list" where
  "eml_directories = [''Inbox-001'', ''opened_emails'', ''starred_emails'']"

definition mbox_files :: "string list" where
  "mbox_files = [''Inbox-001.mbox'', ''Inbox-002.mbox'', ''Opened2.mbox'', ''Opened3.mbox'',
     ''Sent-003.mbox'', ''Starred2.mbox'', ''Starred3.mbox'']"

definition sources_order :: "(string \<times> string) list" where
  "sources_order = [(''eml'', ''Inbox-001''), (''eml'', ''opened_emails''),
     (''mbox'', ''Starred2.mbox''), (''mbox'', ''Starred3.mbox''), (''eml'', ''starred_emails''),
     (''mbox'', ''Opened2.mbox''), (''mbox'', ''Opened3.mbox''), (''mbox'', ''Inbox-001.mbox''),
     (''mbox'', ''Sent-003.mbox''), (''mbox'', ''Inbox-002.mbox''), (''enron'', ''enron'')]"

definition BATCH_SIZE :: int where
  "BATCH_SIZE = 5000"

text \<open>Python's \<open>xs[a:b]\<close> for integers \<open>a\<close>, \<open>b\<close> (negative indices count from the end).\<close>

definition py_index :: "nat \<Rightarrow> int \<Rightarrow> nat" where
  "py_index n i = (if i < 0 then nat (max (i + int n) 0) else min (nat i) n)"

definition py_slice :: "'a list \<Rightarrow> int \<Rightarrow> int \<Rightarrow> 'a list" where
  "py_slice xs a b = (let lo = py_index (length xs) a; hi = py_index (length xs) b
                      in take (hi - lo) (drop lo xs))"

definition rotated_sources :: "int \<Rightarrow> (string \<times> string) list" where
  "rotated_sources rotation = (let start_idx = rotation mod int (length sources_order)
     in py_slice sources_order start_idx (int (length sources_order))
        @ py_slice sources_order 0 start_idx)"

fun parse_mbox_loop :: "int \<Rightarrow> int \<Rightarrow> int \<Rightarrow> email option list \<Rightarrow> email list \<Rightarrow> email list" where
  "parse_mbox_loop offset limit i [] emails = emails"
| "parse_mbox_loop offset limit i (msg # rest) emails =
     (if i < offset then parse_mbox_loop offset limit (i + 1) rest emails
      else if int (length emails) \<ge> limit then emails
      else (case msg of
              None \<Rightarrow> parse_mbox_loop offset limit (i + 1) rest emails
            | Some e \<Rightarrow> parse_mbox_loop offset limit (i + 1) rest (emails @ [e])))"

definition parse_mbox_batch :: "email option list \<Rightarrow> int \<Rightarrow> int \<Rightarrow> email list" where
  "parse_mbox_batch msgs offset limit = parse_mbox_loop offset limit 0 msgs []"

definition tag :: "string \<Rightarrow> email \<Rightarrow> email" where
  "tag source_name e = e(''_source'' \<mapsto> source_name)"

text \<open>One iteration of the loop over \<open>rotated_sources\<close>: the remaining capacity, the
  batch and \<open>state['source_progress']\<close> after it.\<close>

definition visit :: "env \<Rightarrow> int \<Rightarrow> string \<times> string \<Rightarrow> int \<Rightarrow> email list
    \<Rightarrow> (string \<rightharpoonup> int) \<Rightarrow> error + (int \<times> email list \<times> (string \<rightharpoonup> int))" where
  "visit ev rotation src emails_needed batch sp =
     (let source_type = fst src; source_name = snd src;
          source_key = source_type @ ''_'' @ source_name;
          source_offset = get sp source_key 0
      in if source_type = ''eml'' then
           (case (if source_name \<in> set eml_directories then eml_dir ev source_name else None) of
              None \<Rightarrow> Inr (emails_needed, batch, sp)
            | Some files \<Rightarrow>
                (let eml_files = py_slice files source_offset (source_offset + emails_needed)
                 in Inr (emails_needed - int (length eml_files),
                         batch @ map (tag source_name) (List.map_filter (\<lambda>x. x) eml_files),
                         sp(source_key \<mapsto> source_offset + int (length eml_files)))))
         else if source_type = ''mbox'' then
           (case (if source_name \<in> set mbox_files then mbox ev source_name else None) of
              None \<Rightarrow> Inr (emails_needed, batch, sp)
            | Some msgs \<Rightarrow>
                (let mbox_emails = parse_mbox_batch msgs source_offset emails_needed
                 in Inr (emails_needed - int (length mbox_emails),
                         batch @ map (tag source_name) mbox_emails,
                         sp(source_key \<mapsto> source_offset + int (length mbox_emails)))))
         else if source_type = ''enron'' then
           (case enron ev of
              Missing \<Rightarrow> Inr (emails_needed, batch, sp)
            | Malformed \<Rightarrow> Inl JSONDecodeError
            | Data enron_data \<Rightarrow>
                (let section_size = int (length enron_data) div 10;
                     section_start = (rotation mod 10) * section_size;
                     section = py_slice enron_data section_start (section_start + section_size);
                     smp = sample ev section (nat (min emails_needed (int (length section))))
                 in Inr (emails_needed - int (length smp), batch @ map (tag ''enron'') smp, sp)))
         else Inr (emails_needed, batch, sp))"

fun collect :: "env \<Rightarrow> int \<Rightarrow> (string \<times> string) list \<Rightarrow> int \<Rightarrow> email list
    \<Rightarrow> (string \<rightharpoonup> int) \<Rightarrow> error + (email list \<times> (string \<rightharpoonup> int))" where
  "collect ev rotation [] emails_needed batch sp = Inr (batch, sp)"
| "collect ev rotation (src # rest) emails_needed batch sp =
     (if emails_needed \<le> 0 then Inr (batch, sp)
      else (case visit ev rotation src emails_needed batch sp of
              Inl e \<Rightarrow> Inl e
            | Inr (needed', batch', sp') \<Rightarrow> collect ev rotation rest needed' batch' sp'))"

definition get_next_rotation_batch :: "env \<Rightarrow> state \<Rightarrow> int \<Rightarrow> error + (email list \<times> state)" where
  "get_next_rotation_batch ev st batch_size =
     (case collect ev (rotation_number st) (rotated_sources (rotation_number st))
             batch_size [] (source_progress st) of
        Inl e \<Rightarrow> Inl e
      | Inr (batch, sp) \<Rightarrow> Inr (batch, st\<lparr>source_progress := sp\<rparr>))"

text \<open>The loop of \<open>main\<close> that tracks unique emails.\<close>

fun track_unique :: "email list \<Rightarrow> (string \<rightharpoonup> bool) \<Rightarrow> int \<Rightarrow> (string \<rightharpoonup> bool) \<times> int" where
  "track_unique [] hashes new_emails = (hashes, new_emails)"
| "track_unique (e # batch) hashes new_emails =
     (let hash_val = get_email_hash e
      in if hashes hash_val = None
         then track_unique batch (hashes(hash_val \<mapsto> True)) (new_emails + 1)
         else track_unique batch hashes new_emails)"

text \<open>\<open>main\<close> up to \<open>save_state\<close>: the state that is written back, with the batch. When
  the rotation raises, nothing is saved and the state file keeps the old state.\<close>

definition main :: "env \<Rightarrow> state \<Rightarrow> error + (email list \<times> state)" where
  "main ev st0 =
     (let st1 = st0\<lparr>rotation_number := rotation_number st0 + 1\<rparr>
      in case get_next_rotation_batch ev st1 BATCH_SIZE of
           Inl e \<Rightarrow> Inl e
         | Inr (batch, st2) \<Rightarrow>
             (case track_unique batch (processed_hashes st2) 0 of
                (hashes, new_emails) \<Rightarrow>
                  Inr (batch, st2\<lparr>processed_hashes := hashes,
                         total_processed := total_processed st2 + int (length batch),
                         run_history := run_history st2
                           @ [(rotation_number st2, int (length batch), new_emails)]\<rparr>)))"

definition persisted :: "env \<Rightarrow> state \<Rightarrow> state" where
  "persisted ev st = (case main ev st of Inl e \<Rightarrow> st | Inr (batch, st') \<Rightarrow> st')"

text \<open>Two concrete file systems: one where no source exists, and one where only the
  Enron corpus exists (ten records), sampled from the front.\<close>

definition no_sources :: env where
  "no_sources = \<lparr>eml_dir = (\<lambda>n. None), mbox = (\<lambda>n. None), enron = Missing, sample = (\<lambda>xs k. take k xs)\<rparr>"

definition enron_only :: env where
  "enron_only = \<lparr>eml_dir = (\<lambda>n. None), mbox = (\<lambda>n. None), enron = Data (replicate 10 Map.empty),
      sample = (\<lambda>xs k. take k xs)\<rparr>"

section \<open>Python string methods\<close>

text \<open>\<open>str.isspace\<close>, \<open>str.lower\<close> on the code points 0..255, and the methods the
  scripts call.\<close>

definition is_space :: "char \<Rightarrow> bool" where
  "is_space c = ((9 \<le> code c \<and> code c \<le> 13) \<or> (28 \<le> code c \<and> code c \<le> 32)
      \<or> code c = 133 \<or> code c = 160)"

definition py_lower :: "char \<Rightarrow> char" where
  "py_lower c = (let n = code c in
      if (65 \<le> n \<and> n \<le> 90) \<or> (192 \<le> n \<and> n \<le> 214) \<or> (216 \<le> n \<and> n \<le> 222)
      then char_of (n + 32) else c)"

definition lower :: "string \<Rightarrow> string" where
  "lower s = map py_lower s"

definition strip :: "string \<Rightarrow> string" where
  "strip s = rev (dropWhile is_space (rev (dropWhile is_space s)))"

fun split :: "char \<Rightarrow> string \<Rightarrow> string list" where
  "split d [] = [[]]"
| "split d (c # cs) =
     (if c = d then [] # split d cs
      else (case split d cs of [] \<Rightarrow> [[c]] | x # xs \<Rightarrow> (c # x) # xs))"

fun join :: "char \<Rightarrow> string list \<Rightarrow> string" where
  "join d [] = []"
| "join d [x] = x"
| "join d (x # y # ys) = x @ d # join d (y # ys)"

definition startswith :: "string \<Rightarrow> char \<Rightarrow> bool" where
  "startswith s c = (case s of [] \<Rightarrow> False | x # _ \<Rightarrow> x = c)"

section \<open>hashlib.sha256\<close>

definition rotr :: "nat \<Rightarrow> int \<Rightarrow> int" where
  "rotr n x = drop_bit n x OR w32 (push_bit (32 - n) x)"

text \<open>The round constants: the first 32 bits of the fractional parts of the cube roots
  of the first 64 primes.\<close>

definition sha256_K :: "int list" where
  "sha256_K = [
     1116352408, 1899447441, 3049323471, 3921009573, 961987163, 1508970993,
     2453635748, 2870763221, 3624381080, 310598401, 607225278, 1426881987,
     1925078388, 2162078206, 2614888103, 3248222580, 3835390401, 4022224774,
     264347078, 604807628, 770255983, 1249150122, 1555081692, 1996064986,
     2554220882, 2821834349, 2952996808, 3210313671, 3336571891, 3584528711,
     113926993, 338241895, 666307205, 773529912, 1294757372, 1396182291,
     1695183700, 1986661051, 2177026350, 2456956037, 2730485921, 2820302411,
     3259730800, 3345764771, 3516065817, 3600352804, 4094571909, 275423344,
     430227734, 506948616, 659060556, 883997877, 958139571, 1322822218,
     1537002063, 1747873779, 1955562222, 2024104815, 2227730452, 2361852424,
     2428436474, 2756734187, 3204031479, 3329325298]"

fun be_bytes :: "nat \<Rightarrow> int \<Rightarrow> int list" where
  "be_bytes 0 v = []"
| "be_bytes (Suc k) v = (v div 256 ^ k) mod 256 # be_bytes k v"

fun be_words :: "int list \<Rightarrow> int list" where
  "be_words (a # b # c # d # r) = (((a * 256 + b) * 256 + c) * 256 + d) # be_words r"
| "be_words _ = []"

definition sha_pad :: "int list \<Rightarrow> int list" where
  "sha_pad m = m @ [128] @ replicate ((119 - length m mod 64) mod 64) 0
                 @ be_bytes 8 (8 * int (length m))"

definition ssig0 :: "int \<Rightarrow> int" where
  "ssig0 x = rotr 7 x XOR rotr 18 x XOR drop_bit 3 x"

definition ssig1 :: "int \<Rightarrow> int" where
  "ssig1 x = rotr 17 x XOR rotr 19 x XOR drop_bit 10 x"

definition bsig0 :: "int \<Rightarrow> int" where
  "bsig0 x = rotr 2 x XOR rotr 13 x XOR rotr 22 x"

definition bsig1 :: "int \<Rightarrow> int" where
  "bsig1 x = rotr 6 x XOR rotr 11 x XOR rotr 25 x"

fun schedule :: "nat \<Rightarrow> int list \<Rightarrow> int list" where
  "schedule 0 w = []"
| "schedule (Suc n) w =
     hd w # schedule n (tl w @ [w32 (ssig1 (w ! 14) + w ! 9 + ssig0 (w ! 1) + w ! 0)])"

fun sha_round :: "int list \<Rightarrow> int \<times> int \<Rightarrow> int list" where
  "sha_round [a, b, c, d, e, f, g, h] (k, w) =
     (let t1 = h + bsig1 e + ((e AND f) XOR (not32 e AND g)) + k + w;
          t2 = bsig0 a + ((a AND b) XOR (a AND c) XOR (b AND c))
      in [w32 (t1 + t2), a, b, c, w32 (d + t1), e, f, g])"
| "sha_round s _ = s"

definition sha_block :: "int list \<Rightarrow> int list \<Rightarrow> int list" where
  "sha_block h blk =
     map2 (\<lambda>x y. w32 (x + y)) h (foldl sha_round h (zip sha256_K (schedule 64 blk)))"

definition sha256_hex :: "int list \<Rightarrow> string" where
  "sha256_hex m = (let ws = be_words (sha_pad m) in
     concat (map (\<lambda>w. concat (map hex_byte (be_bytes 4 w)))
        (foldl sha_block [1779033703, 3144134277, 1013904242, 2773480762,
                          1359893119, 2600822924, 528734635, 1541459225]
           (chunks (length ws div 16) ws))))"

section \<open>Pseudonyms\<close>

definition ANONYMIZATION_SALT :: string where
  "ANONYMIZATION_SALT = ''zero-enron-pii-salt-2024''"

text \<open>\<open>scrub_enron_pii.hash_email\<close>. \<open>email.rsplit('@', 1)\<close> has two parts when the
  address has an \<open>@\<close>; the second is what follows the last one.\<close>

definition after_last :: "char \<Rightarrow> string \<Rightarrow> string" where
  "after_last d s = rev (takeWhile (\<lambda>c. c \<noteq> d) (rev s))"

definition hash_email :: "string \<Rightarrow> string" where
  "hash_email email =
     (let hash_value = take 8 (sha256_hex (utf8 (lower email @ ANONYMIZATION_SALT)))
      in if CHR ''@'' \<in> set email then
           (let domain = after_last CHR ''@'' email;
                domain_parts = split CHR ''.'' domain
            in if length domain_parts \<ge> 2
               then ''user_'' @ hash_value @ ''@example.'' @ last domain_parts
               else ''user_'' @ hash_value @ ''@example.com'')
         else ''user_'' @ hash_value @ ''@example.com'')"

text \<open>\<open>scrub_personal_emails.generate_anonymous_email\<close>, with the module-level
  \<open>email_cache\<close> passed in and returned.\<close>

definition generate_anonymous_email :: "(string \<rightharpoonup> string) \<Rightarrow> string
    \<Rightarrow> string \<times> (string \<rightharpoonup> string)" where
  "generate_anonymous_email email_cache original =
     (case email_cache (lower original) of
        Some anon \<Rightarrow> (anon, email_cache)
      | None \<Rightarrow>
          (let hash_val = take 8 (md5_hex (utf8 (lower original)));
               anon_email = ''user_'' @ hash_val @ ''@example.com''
           in (anon_email, email_cache(lower original \<mapsto> anon_email))))"

definition generate_anonymous_name :: "(string \<rightharpoonup> string) \<Rightarrow> string
    \<Rightarrow> string \<times> (string \<rightharpoonup> string)" where
  "generate_anonymous_name name_cache original =
     (case name_cache (lower original) of
        Some anon \<Rightarrow> (anon, name_cache)
      | None \<Rightarrow>
          (let hash_val = take 6 (md5_hex (utf8 (lower original)));
               anon_name = ''[PERSON_'' @ hash_val @ '']''
           in (anon_name, name_cache(lower original \<mapsto> anon_name))))"

text \<open>A run of the process: the cache starts empty and the identifiers are resolved one
  after the other.\<close>

fun resolve_all :: "(string \<rightharpoonup> string) \<Rightarrow> string list \<Rightarrow> (string \<rightharpoonup> string)" where
  "resolve_all email_cache [] = email_cache"
| "resolve_all email_cache (x # xs) = resolve_all (snd (generate_anonymous_email email_cache x)) xs"

section \<open>parse\_email\_message\<close>

record parsed =
  p_from :: string
  p_to :: string
  p_subject :: string
  p_date :: string
  p_message_id :: string
  p_body :: string

definition header_keys :: "string list" where
  "header_keys = [''from'', ''to'', ''subject'', ''date'', ''message-id'', ''x-from'', ''x-to'']"

definition partition_key :: "string \<Rightarrow> string" where
  "partition_key line = takeWhile (\<lambda>c. c \<noteq> CHR '':'') line"

definition partition_value :: "string \<Rightarrow> string" where
  "partition_value line = drop 1 (dropWhile (\<lambda>c. c \<noteq> CHR '':'') line)"

fun parse_loop :: "string list \<Rightarrow> bool \<Rightarrow> (string \<rightharpoonup> string) \<Rightarrow> string list
    \<Rightarrow> (string \<rightharpoonup> string) \<times> string list" where
  "parse_loop [] in_body headers body_lines = (headers, body_lines)"
| "parse_loop (line # rest) in_body headers body_lines =
     (if in_body then parse_loop rest True headers (body_lines @ [line])
      else if strip line = [] then parse_loop rest True headers body_lines
      else if CHR '':'' \<in> set line \<and> \<not> startswith line CHR '' '' \<and> \<not> startswith line CHR 0x09 then
        (let key = lower (strip (partition_key line));
             val = strip (partition_value line)
         in if key \<in> set header_keys
            then parse_loop rest False (headers(key \<mapsto> val)) body_lines
            else parse_loop rest False headers body_lines)
      else if startswith line CHR '' '' \<or> startswith line CHR 0x09 then
        parse_loop rest False headers body_lines
      else parse_loop rest False headers body_lines)"

text \<open>\<open>a or b\<close> on strings, where \<open>a\<close> may be \<open>None\<close>.\<close>

definition or_else :: "string option \<Rightarrow> string \<Rightarrow> string" where
  "or_else a b = (case a of None \<Rightarrow> b | Some v \<Rightarrow> if v = [] then b else v)"

definition parse_lines :: "string list \<Rightarrow> parsed" where
  "parse_lines lines =
     (case parse_loop lines False Map.empty [] of
        (headers, body_lines) \<Rightarrow>
          \<lparr>p_from = or_else (headers ''from'') (get headers ''x-from'' ''''),
           p_to = or_else (headers ''to'') (get headers ''x-to'' ''''),
           p_subject = get headers ''subject'' '''',
           p_date = get headers ''date'' '''',
           p_message_id = get headers ''message-id'' '''',
           p_body = strip (join CHR 0x0A body_lines)\<rparr>)"

definition parse_email_message :: "string \<Rightarrow> parsed option" where
  "parse_email_message message =
     (if message = [] then None else Some (parse_lines (split CHR 0x0A message)))"

text \<open>Every entry of the cache is the pseudonym of its key.\<close>

definition cache_ok :: "(string \<rightharpoonup> string) \<Rightarrow> bool" where
  "cache_ok c = (\<forall>k v. c k = Some v \<longrightarrow> v = ''user_'' @ take 8 (md5_hex (utf8 k)) @ ''@example.com'')"

section \<open>What a rotation takes from each source\<close>

text \<open>\<open>source_key\<close> is the key under which the loop keeps the offset of a source,
  \<open>f"{source_type}_{source_name}"\<close>. \<open>count_from name batch\<close> is the number of records of
  a batch that carry the \<open>_source\<close> tag \<open>name\<close>. \<open>returned\<close> is the batch a rotation
  returns (empty when it raises).\<close>

definition source_key :: "string \<times> string \<Rightarrow> string" where
  "source_key src = fst src @ ''_'' @ snd src"

definition count_from :: "string \<Rightarrow> email list \<Rightarrow> int" where
  "count_from name batch = int (length (filter (\<lambda>e. e ''_source'' = Some name) batch))"

definition returned :: "env \<Rightarrow> state \<Rightarrow> email list" where
  "returned ev st = (case main ev st of Inl e \<Rightarrow> [] | Inr (batch, st') \<Rightarrow> batch)"

text \<open>What was subtracted from \<open>emails_needed\<close> for a source between two points of a
  rotation, read off the progress (\<open>sp\<close> before, \<open>sp'\<close> after) and the batch (\<open>batch\<close>
  before, \<open>batch'\<close> after): the advance of the offset for a directory or an mbox, the
  number of records tagged \<open>enron\<close> for the Enron corpus, whose offset is not kept.\<close>

definition consumed :: "(string \<rightharpoonup> int) \<Rightarrow> (string \<rightharpoonup> int) \<Rightarrow> email list \<Rightarrow> email list
    \<Rightarrow> string \<times> string \<Rightarrow> int" where
  "consumed sp sp' batch batch' src =
     (if fst src = ''enron'' then count_from ''enron'' batch' - count_from ''enron'' batch
      else get sp' (source_key src) 0 - get sp (source_key src) 0)"

text \<open>The offset that one visit of a source with \<open>needed\<close> records still wanted leaves
  under the key of the source, given the progress \<open>sp\<close> before the rotation.\<close>

definition offset_after :: "env \<Rightarrow> string \<times> string \<Rightarrow> int \<Rightarrow> (string \<rightharpoonup> int) \<Rightarrow> int option" where
  "offset_after ev src needed sp =
     (let key = source_key src; off = get sp key 0
      in if needed \<le> 0 then sp key
         else if fst src = ''eml'' then
           (case eml_dir ev (snd src) of
              None \<Rightarrow> sp key
            | Some files \<Rightarrow> Some (off + int (length (py_slice files off (off + needed)))))
         else if fst src = ''mbox'' then
           (case mbox ev (snd src) of
              None \<Rightarrow> sp key
            | Some msgs \<Rightarrow> Some (off + int (length (parse_mbox_batch msgs off needed))))
         else sp key)"

text \<open>A file system with a directory of two files, the first of which does not parse,
  and an mbox of one message.\<close>

definition two_sources :: env where
  "two_sources = \<lparr>eml_dir = (\<lambda>n. if n = ''opened_emails'' then Some [None, Some Map.empty] else None),
      mbox = (\<lambda>n. if n = ''Starred2.mbox'' then Some [Some Map.empty] else None),
      enron = Missing, sample = (\<lambda>xs k. take k xs)\<rparr>"

section \<open>Rotation order\<close>

lemma len_sources: "length sources_order = 11"
  by (simp add: sources_order_def)

lemma rotated_sources_rotate: "rotated_sources r = rotate (nat (r mod 11)) sources_order"
proof -
  have "0 \<le> r mod 11" "nat (r mod 11) \<le> 11" by simp_all
  then show ?thesis
    by (simp add: rotated_sources_def len_sources py_slice_def py_index_def rotate_drop_take Let_def min_def)
qed

lemma hd_rotated: "hd (rotated_sources r) = sources_order ! nat (r mod 11)"
proof -
  have "sources_order \<noteq> []" by (simp add: sources_order_def)
  then show ?thesis
    by (simp add: rotated_sources_rotate hd_rotate_conv_nth len_sources)
qed

lemma upt11: "[0..<11] = [0, 1, 2, 3, 4, 5, 6, 7, 8, 9, 10]"
  by (simp add: upt_rec)

lemma firsts_perm:
  "mset (map (\<lambda>k. hd (rotated_sources (r + int k))) [0..<11]) = mset sources_order"
proof -
  have key: "\<And>k. (r + k) mod 11 = (r mod 11 + k) mod 11"
    by (simp add: mod_add_left_eq)
  define j where "j = r mod 11"
  have "0 \<le> j" "j < 11" by (simp_all add: j_def)
  then have "j = 0 \<or> j = 1 \<or> j = 2 \<or> j = 3 \<or> j = 4 \<or> j = 5 \<or> j = 6 \<or> j = 7 \<or> j = 8
    \<or> j = 9 \<or> j = 10"
    by arith
  then consider "r mod 11 = 0" | "r mod 11 = 1" | "r mod 11 = 2" | "r mod 11 = 3"
    | "r mod 11 = 4" | "r mod 11 = 5" | "r mod 11 = 6" | "r mod 11 = 7" | "r mod 11 = 8"
    | "r mod 11 = 9" | "r mod 11 = 10"
    unfolding j_def by blast
  then show ?thesis
    by cases (simp_all add: hd_rotated upt11 key sources_order_def)
qed

text \<open>
  Claim C6. The effective source order is the fixed list of 11 sources rotated left by
  \<open>rotation_number mod 11\<close>, so the source at that index comes first (the second
  configured source at rotation 1). \<open>main\<close> raises the rotation number by one before it
  collects the batch, and over any 11 consecutive rotation numbers the first sources are
  the configured sources, each exactly once.
\<close>

theorem rotation_fairness:
  assumes "main ev st = Inr (batch, st')"
  shows "rotation_number st' = rotation_number st + 1
    \<and> (\<exists>sp. collect ev (rotation_number st') (rotated_sources (rotation_number st')) BATCH_SIZE []
               (source_progress st) = Inr (batch, sp))
    \<and> length sources_order = 11
    \<and> rotated_sources r = rotate (nat (r mod 11)) sources_order
    \<and> hd (rotated_sources r) = sources_order ! nat (r mod 11)
    \<and> hd (rotated_sources 1) = (''eml'', ''opened_emails'')
    \<and> distinct sources_order
    \<and> mset (map (\<lambda>k. hd (rotated_sources (r + int k))) [0..<11]) = mset sources_order"
proof -
  have a: "rotation_number st' = rotation_number st + 1
    \<and> (\<exists>sp. collect ev (rotation_number st') (rotated_sources (rotation_number st')) BATCH_SIZE []
               (source_progress st) = Inr (batch, sp))"
    using assms
    by (auto simp: main_def get_next_rotation_batch_def Let_def split: sum.splits prod.splits)
  have b: "hd (rotated_sources 1) = (''eml'', ''opened_emails'')"
    by (simp add: hd_rotated sources_order_def)
  have c: "distinct sources_order"
    by (simp add: sources_order_def)
  show ?thesis
    using a b c len_sources rotated_sources_rotate hd_rotated firsts_perm by blast
qed

lemma main_no_sources:
  "main no_sources initial_state = Inr ([], initial_state\<lparr>rotation_number := 1, run_history := [(1, 0, 0)]\<rparr>)"
  by (simp add: main_def get_next_rotation_batch_def no_sources_def initial_state_def Let_def
      hd_rotated rotated_sources_rotate sources_order_def visit_def get_def BATCH_SIZE_def
      eml_directories_def mbox_files_def)

theorem rotation_fairness_witness:
  "main no_sources initial_state
     = Inr ([], initial_state\<lparr>rotation_number := 1, run_history := [(1, 0, 0)]\<rparr>)
   \<and> rotation_number (initial_state\<lparr>rotation_number := 1, run_history := [(1, 0, 0)]\<rparr>)
       = rotation_number initial_state + 1
   \<and> hd (rotated_sources 12) = sources_order ! nat (12 mod 11)
   \<and> mset (map (\<lambda>k. hd (rotated_sources (12 + int k))) [0..<11]) = mset sources_order"
  using main_no_sources rotation_fairness [OF main_no_sources, of 12]
  by blast

section \<open>Coverage progress\<close>

lemma get_upd_mono: "0 \<le> n \<Longrightarrow> get sp k 0 \<le> get (sp(key \<mapsto> get sp key 0 + n)) k (0::int)"
  by (simp add: get_def)

lemma visit_mono:
  "visit ev rot src needed batch sp = Inr (needed', batch', sp') \<Longrightarrow> get sp k 0 \<le> get sp' k 0"
  by (auto simp: visit_def Let_def get_upd_mono split: if_splits option.splits enron_file.splits)

lemma visit_enron:
  "visit ev rot src needed batch sp = Inr (needed', batch', sp') \<Longrightarrow> src \<in> set sources_order
   \<Longrightarrow> sp' ''enron_enron'' = sp ''enron_enron''"
  by (auto simp: visit_def Let_def sources_order_def split: if_splits option.splits enron_file.splits)

lemma collect_mono:
  "collect ev rot srcs needed batch sp = Inr (batch', sp') \<Longrightarrow> get sp k 0 \<le> get sp' k 0"
proof (induction srcs arbitrary: needed batch sp)
  case Nil
  then show ?case by simp
next
  case (Cons src rest)
  show ?case
  proof (cases "needed \<le> 0")
    case True
    with Cons.prems show ?thesis by simp
  next
    case False
    with Cons.prems obtain n1 b1 sp1 where
      v: "visit ev rot src needed batch sp = Inr (n1, b1, sp1)" and
      c: "collect ev rot rest n1 b1 sp1 = Inr (batch', sp')"
      by (auto split: sum.splits)
    from visit_mono [OF v] Cons.IH [OF c] show ?thesis
      by (rule order_trans)
  qed
qed

lemma collect_enron:
  "collect ev rot srcs needed batch sp = Inr (batch', sp') \<Longrightarrow> set srcs \<subseteq> set sources_order
   \<Longrightarrow> sp' ''enron_enron'' = sp ''enron_enron''"
proof (induction srcs arbitrary: needed batch sp)
  case Nil
  then show ?case by simp
next
  case (Cons src rest)
  show ?case
  proof (cases "needed \<le> 0")
    case True
    with Cons.prems show ?thesis by simp
  next
    case False
    with Cons.prems obtain n1 b1 sp1 where
      v: "visit ev rot src needed batch sp = Inr (n1, b1, sp1)" and
      c: "collect ev rot rest n1 b1 sp1 = Inr (batch', sp')"
      by (auto split: sum.splits)
    from Cons.prems have "src \<in> set sources_order" "set rest \<subseteq> set sources_order" by auto
    with visit_enron [OF v] Cons.IH [OF c] show ?thesis by simp
  qed
qed

lemma set_rotated: "set (rotated_sources r) = set sources_order"
  by (simp add: rotated_sources_rotate)

lemma main_progress:
  assumes "main ev st = Inr (batch, st')"
  shows "get (source_progress st) k 0 \<le> get (source_progress st') k 0"
    and "source_progress st' ''enron_enron'' = source_progress st ''enron_enron''"
  using assms collect_mono [of ev "rotation_number st + 1" "rotated_sources (rotation_number st + 1)" BATCH_SIZE "[]" "source_progress st" batch _ k]
     collect_enron [of ev "rotation_number st + 1" "rotated_sources (rotation_number st + 1)" BATCH_SIZE "[]" "source_progress st" batch]
  by (auto simp: main_def get_next_rotation_batch_def Let_def set_rotated split: sum.splits prod.splits)

lemma in_sources_all:
  "\<forall>src \<in> set sources_order.
     (fst src = ''eml'' \<and> snd src \<in> set eml_directories)
     \<or> (fst src = ''mbox'' \<and> snd src \<in> set mbox_files)
     \<or> src = (''enron'', ''enron'')"
  by (simp add: sources_order_def eml_directories_def mbox_files_def)

lemma in_sources:
  "src \<in> set sources_order \<Longrightarrow>
     (fst src = ''eml'' \<and> snd src \<in> set eml_directories)
     \<or> (fst src = ''mbox'' \<and> snd src \<in> set mbox_files)
     \<or> src = (''enron'', ''enron'')"
  using in_sources_all by blast

lemma keys_distinct: "distinct (map source_key sources_order)"
  by (simp add: sources_order_def source_key_def)

lemma key_inj:
  "a \<in> set sources_order \<Longrightarrow> b \<in> set sources_order \<Longrightarrow> source_key a = source_key b \<Longrightarrow> a = b"
  using keys_distinct by (auto simp: distinct_map inj_on_def)

lemma count_from_append:
  "count_from name (batch @ map (tag n) xs)
     = count_from name batch + (if n = name then int (length xs) else 0)"
  by (simp add: count_from_def tag_def)

lemma visit_cases:
  assumes "src \<in> set sources_order"
      and "visit ev rot src needed batch sp = Inr (n1, b1, sp1)"
  shows "(\<exists>files. fst src = ''eml'' \<and> eml_dir ev (snd src) = Some files
            \<and> n1 = needed - int (length (py_slice files (get sp (source_key src) 0)
                      (get sp (source_key src) 0 + needed)))
            \<and> b1 = batch @ map (tag (snd src)) (List.map_filter (\<lambda>x. x)
                      (py_slice files (get sp (source_key src) 0)
                         (get sp (source_key src) 0 + needed)))
            \<and> sp1 = sp(source_key src \<mapsto> get sp (source_key src) 0
                      + int (length (py_slice files (get sp (source_key src) 0)
                          (get sp (source_key src) 0 + needed)))))
     \<or> (\<exists>msgs. fst src = ''mbox'' \<and> mbox ev (snd src) = Some msgs
            \<and> n1 = needed - int (length (parse_mbox_batch msgs (get sp (source_key src) 0) needed))
            \<and> b1 = batch @ map (tag (snd src))
                      (parse_mbox_batch msgs (get sp (source_key src) 0) needed)
            \<and> sp1 = sp(source_key src \<mapsto> get sp (source_key src) 0
                      + int (length (parse_mbox_batch msgs (get sp (source_key src) 0) needed))))
     \<or> (\<exists>smp. src = (''enron'', ''enron'') \<and> n1 = needed - int (length smp)
            \<and> b1 = batch @ map (tag ''enron'') smp \<and> sp1 = sp)
     \<or> (n1 = needed \<and> b1 = batch \<and> sp1 = sp
          \<and> (fst src = ''eml'' \<longrightarrow> eml_dir ev (snd src) = None)
          \<and> (fst src = ''mbox'' \<longrightarrow> mbox ev (snd src) = None))"
  using in_sources [OF assms(1)] assms(2)
  by (auto simp: visit_def Let_def source_key_def split: if_splits option.splits enron_file.splits)

lemma visit_other:
  assumes "src \<in> set sources_order"
      and "visit ev rot src needed batch sp = Inr (n1, b1, sp1)"
      and "k \<noteq> source_key src"
  shows "sp1 k = sp k"
  using visit_cases [OF assms(1,2)] assms(3) by auto

lemma enron_key_all: "\<forall>src \<in> set sources_order. fst src \<noteq> ''enron'' \<longrightarrow> snd src \<noteq> ''enron''"
  by (simp add: sources_order_def)

lemma enron_key: "src \<in> set sources_order \<Longrightarrow> fst src \<noteq> ''enron'' \<Longrightarrow> snd src \<noteq> ''enron''"
  using enron_key_all by blast

lemma visit_no_enron:
  assumes "src \<in> set sources_order"
      and "visit ev rot src needed batch sp = Inr (n1, b1, sp1)"
      and "fst src \<noteq> ''enron''"
  shows "count_from ''enron'' b1 = count_from ''enron'' batch"
  using visit_cases [OF assms(1,2)] assms(3) enron_key [OF assms(1)]
  by (auto simp: count_from_append)

lemma visit_consumed:
  assumes "src \<in> set sources_order"
      and "visit ev rot src needed batch sp = Inr (n1, b1, sp1)"
  shows "n1 = needed - consumed sp sp1 batch b1 src"
  using visit_cases [OF assms]
  by (auto simp: consumed_def count_from_append get_def)

lemma visit_offset:
  assumes "src \<in> set sources_order"
      and "visit ev rot src needed batch sp = Inr (n1, b1, sp1)"
      and "0 < needed"
  shows "sp1 (source_key src) = offset_after ev src needed sp"
  using visit_cases [OF assms(1,2)] assms(3) in_sources [OF assms(1)]
  by (auto simp: offset_after_def Let_def)

lemma collect_other:
  "collect ev rot srcs needed batch sp = Inr (batch', sp') \<Longrightarrow> set srcs \<subseteq> set sources_order
   \<Longrightarrow> k \<notin> source_key ` set srcs \<Longrightarrow> sp' k = sp k"
proof (induction srcs arbitrary: needed batch sp)
  case Nil
  then show ?case by simp
next
  case (Cons src rest)
  show ?case
  proof (cases "needed \<le> 0")
    case True
    with Cons.prems show ?thesis by simp
  next
    case False
    with Cons.prems obtain n1 b1 sp1 where
      v: "visit ev rot src needed batch sp = Inr (n1, b1, sp1)" and
      c: "collect ev rot rest n1 b1 sp1 = Inr (batch', sp')"
      by (auto split: sum.splits)
    from Cons.prems have s: "src \<in> set sources_order" "set rest \<subseteq> set sources_order"
      and k: "k \<noteq> source_key src" "k \<notin> source_key ` set rest" by auto
    from visit_other [OF s(1) v k(1)] Cons.IH [OF c s(2) k(2)] show ?thesis by simp
  qed
qed

lemma collect_no_enron:
  "collect ev rot srcs needed batch sp = Inr (batch', sp') \<Longrightarrow> set srcs \<subseteq> set sources_order
   \<Longrightarrow> \<forall>src \<in> set srcs. fst src \<noteq> ''enron''
   \<Longrightarrow> count_from ''enron'' batch' = count_from ''enron'' batch"
proof (induction srcs arbitrary: needed batch sp)
  case Nil
  then show ?case by simp
next
  case (Cons src rest)
  show ?case
  proof (cases "needed \<le> 0")
    case True
    with Cons.prems show ?thesis by simp
  next
    case False
    with Cons.prems obtain n1 b1 sp1 where
      v: "visit ev rot src needed batch sp = Inr (n1, b1, sp1)" and
      c: "collect ev rot rest n1 b1 sp1 = Inr (batch', sp')"
      by (auto split: sum.splits)
    from Cons.prems have s: "src \<in> set sources_order" "set rest \<subseteq> set sources_order"
      and k: "fst src \<noteq> ''enron''" "\<forall>src \<in> set rest. fst src \<noteq> ''enron''" by auto
    from visit_no_enron [OF s(1) v k(1)] Cons.IH [OF c s(2) k(2)] show ?thesis by simp
  qed
qed

lemma enron_unique_all: "\<forall>src \<in> set sources_order. fst src = ''enron'' \<longrightarrow> src = (''enron'', ''enron'')"
  by (simp add: sources_order_def)

lemma enron_unique:
  "a \<in> set sources_order \<Longrightarrow> b \<in> set sources_order \<Longrightarrow> fst a = ''enron'' \<Longrightarrow> fst b = ''enron''
   \<Longrightarrow> a = b"
  using enron_unique_all by metis

text \<open>What the rest of a rotation consumed from a source already visited is what that
  visit consumed: the later sources have other keys and other tags.\<close>

lemma consumed_rest:
  assumes c: "collect ev rot rest n1 b1 sp1 = Inr (batch', sp')"
      and s: "src \<in> set sources_order" "set rest \<subseteq> set sources_order"
      and d: "src \<notin> set rest"
  shows "consumed sp sp' batch batch' src = consumed sp sp1 batch b1 src"
proof (cases "fst src = ''enron''")
  case True
  have "\<forall>x \<in> set rest. fst x \<noteq> ''enron''"
  proof
    fix x assume x: "x \<in> set rest"
    show "fst x \<noteq> ''enron''"
    proof
      assume "fst x = ''enron''"
      with enron_unique [of x src] x s True have "x = src" by auto
      with x d show False by simp
    qed
  qed
  from collect_no_enron [OF c s(2) this] True show ?thesis by (simp add: consumed_def)
next
  case False
  have "source_key src \<notin> source_key ` set rest"
  proof
    assume "source_key src \<in> source_key ` set rest"
    then obtain x where x: "x \<in> set rest" "source_key src = source_key x" by auto
    with key_inj [of src x] s have "src = x" by auto
    with x d show False by simp
  qed
  from collect_other [OF c s(2) this] False show ?thesis by (simp add: consumed_def get_def)
qed

text \<open>What an earlier visit of another source leaves of the consumption of a source.\<close>

lemma consumed_before:
  assumes v: "visit ev rot p needed batch sp = Inr (n1, b1, sp1)"
      and s: "p \<in> set sources_order" "src \<in> set sources_order"
      and d: "src \<noteq> p"
  shows "consumed sp1 sp' b1 batch' src = consumed sp sp' batch batch' src"
proof (cases "fst src = ''enron''")
  case True
  with enron_unique [of src p] s d have "fst p \<noteq> ''enron''" by auto
  from visit_no_enron [OF s(1) v this] True show ?thesis by (simp add: consumed_def)
next
  case False
  from key_inj [of src p] s d have "source_key src \<noteq> source_key p" by auto
  from visit_other [OF s(1) v this] False show ?thesis by (simp add: consumed_def get_def)
qed

lemma offset_after_cong:
  "sp1 (source_key src) = sp (source_key src) \<Longrightarrow> offset_after ev src n sp1 = offset_after ev src n sp"
  unfolding offset_after_def Let_def get_def by (erule ssubst) (rule refl)

lemma collect_offset:
  "collect ev rot (pre @ src # post) needed batch sp = Inr (batch', sp')
   \<Longrightarrow> set (pre @ src # post) \<subseteq> set sources_order \<Longrightarrow> distinct (pre @ src # post)
   \<Longrightarrow> sp' (source_key src)
         = offset_after ev src (needed - sum_list (map (consumed sp sp' batch batch') pre)) sp"
proof (induction pre arbitrary: needed batch sp)
  case Nil
  show ?case
  proof (cases "needed \<le> 0")
    case True
    with Nil.prems show ?thesis by (simp add: offset_after_def Let_def)
  next
    case False
    with Nil.prems obtain n1 b1 sp1 where
      v: "visit ev rot src needed batch sp = Inr (n1, b1, sp1)" and
      c: "collect ev rot post n1 b1 sp1 = Inr (batch', sp')"
      by (auto split: sum.splits)
    from Nil.prems have s: "src \<in> set sources_order" "set post \<subseteq> set sources_order"
      and d: "src \<notin> set post" by auto
    have "source_key src \<notin> source_key ` set post"
    proof
      assume "source_key src \<in> source_key ` set post"
      then obtain x where x: "x \<in> set post" "source_key src = source_key x" by auto
      with key_inj [of src x] s have "src = x" by auto
      with x d show False by simp
    qed
    from collect_other [OF c s(2) this] visit_offset [OF s(1) v] False show ?thesis by simp
  qed
next
  case (Cons p pre)
  show ?case
  proof (cases "needed \<le> 0")
    case True
    with Cons.prems have "sp' = sp" "batch' = batch" by auto
    moreover have "consumed sp sp batch batch = (\<lambda>x. 0)"
      by (simp add: consumed_def fun_eq_iff)
    ultimately have "sum_list (map (consumed sp sp' batch batch') (p # pre)) = 0"
      by simp
    with True \<open>sp' = sp\<close> show ?thesis by (simp add: offset_after_def Let_def)
  next
    case False
    with Cons.prems obtain n1 b1 sp1 where
      v: "visit ev rot p needed batch sp = Inr (n1, b1, sp1)" and
      c: "collect ev rot (pre @ src # post) n1 b1 sp1 = Inr (batch', sp')"
      by (auto split: sum.splits)
    from Cons.prems have s: "p \<in> set sources_order" "src \<in> set sources_order"
        "set (pre @ src # post) \<subseteq> set sources_order"
      and d: "p \<notin> set (pre @ src # post)" "distinct (pre @ src # post)" "src \<noteq> p" by auto
    have ih: "sp' (source_key src)
        = offset_after ev src (n1 - sum_list (map (consumed sp1 sp' b1 batch') pre)) sp1"
      by (rule Cons.IH [OF c s(3) d(2)])
    have n1: "n1 = needed - consumed sp sp' batch batch' p"
      using visit_consumed [OF s(1) v] consumed_rest [OF c s(1) s(3) d(1), of sp batch] by simp
    have m: "map (consumed sp1 sp' b1 batch') pre = map (consumed sp sp' batch batch') pre"
    proof (rule map_cong [OF refl])
      fix x assume x: "x \<in> set pre"
      with s(3) d(1) have "x \<in> set sources_order" "x \<noteq> p" by auto
      from consumed_before [OF v s(1) this]
      show "consumed sp1 sp' b1 batch' x = consumed sp sp' batch batch' x" .
    qed
    have o: "offset_after ev src n sp1 = offset_after ev src n sp" for n
    proof (rule offset_after_cong)
      from key_inj [of src p] s d(3) have "source_key src \<noteq> source_key p" by auto
      from visit_other [OF s(1) v this] show "sp1 (source_key src) = sp (source_key src)" .
    qed
    have e: "needed - sum_list (map (consumed sp sp' batch batch') (p # pre))
        = n1 - sum_list (map (consumed sp sp' batch batch') pre)"
      using n1 by simp
    show ?thesis
      unfolding e using ih unfolding m o .
  qed
qed

lemma distinct_sources: "distinct sources_order"
  by (simp add: sources_order_def)

lemma distinct_rotated: "distinct (rotated_sources r)"
  by (simp add: rotated_sources_rotate distinct_sources)

lemma main_collect:
  "main ev st = Inr (batch, st') \<Longrightarrow>
     collect ev (rotation_number st + 1) (rotated_sources (rotation_number st + 1)) BATCH_SIZE []
        (source_progress st) = Inr (batch, source_progress st')"
  by (auto simp: main_def get_next_rotation_batch_def Let_def split: sum.splits prod.splits)

lemma main_offset:
  assumes "main ev st = Inr (batch, st')"
      and "rotated_sources (rotation_number st + 1) = pre @ src # post"
  shows "source_progress st' (source_key src)
     = offset_after ev src
         (BATCH_SIZE - sum_list (map (consumed (source_progress st) (source_progress st') [] batch) pre))
         (source_progress st)"
proof -
  from set_rotated [of "rotation_number st + 1"] distinct_rotated [of "rotation_number st + 1"]
  have "set (pre @ src # post) \<subseteq> set sources_order" "distinct (pre @ src # post)"
    unfolding assms(2) by auto
  with main_collect [OF assms(1)] show ?thesis
    unfolding assms(2) by (rule collect_offset)
qed

text \<open>Records returned against offsets: an mbox offset advances by the number of records
  returned from it, a directory offset by at least that number.\<close>

lemma visit_mbox_count:
  assumes "src \<in> set sources_order"
      and "visit ev rot src needed batch sp = Inr (n1, b1, sp1)"
      and "n \<in> set mbox_files"
  shows "get sp1 (''mbox_'' @ n) 0 - count_from n b1 = get sp (''mbox_'' @ n) 0 - count_from n batch"
  using visit_cases [OF assms(1,2)] in_sources [OF assms(1)] assms(3)
  by (auto simp: count_from_append get_def source_key_def eml_directories_def mbox_files_def)

lemma length_map_filter: "length (List.map_filter f xs) \<le> length xs"
  by (simp add: List.map_filter_def)

lemma visit_eml_count:
  assumes "src \<in> set sources_order"
      and "visit ev rot src needed batch sp = Inr (n1, b1, sp1)"
      and "n \<in> set eml_directories"
  shows "get sp (''eml_'' @ n) 0 - count_from n batch \<le> get sp1 (''eml_'' @ n) 0 - count_from n b1"
proof -
  have le: "int (length (List.map_filter (\<lambda>x. x) fs)) \<le> int (length fs)" for fs :: "email option list"
    using length_map_filter [of "\<lambda>x. x" fs] by simp
  show ?thesis
    using visit_cases [OF assms(1,2)] in_sources [OF assms(1)] assms(3) le
    by (auto simp: count_from_append get_def source_key_def eml_directories_def mbox_files_def)
qed

lemma collect_mbox_count:
  "collect ev rot srcs needed batch sp = Inr (batch', sp') \<Longrightarrow> set srcs \<subseteq> set sources_order
   \<Longrightarrow> n \<in> set mbox_files
   \<Longrightarrow> get sp' (''mbox_'' @ n) 0 - count_from n batch' = get sp (''mbox_'' @ n) 0 - count_from n batch"
proof (induction srcs arbitrary: needed batch sp)
  case Nil
  then show ?case by simp
next
  case (Cons src rest)
  show ?case
  proof (cases "needed \<le> 0")
    case True
    with Cons.prems show ?thesis by simp
  next
    case False
    with Cons.prems obtain n1 b1 sp1 where
      v: "visit ev rot src needed batch sp = Inr (n1, b1, sp1)" and
      c: "collect ev rot rest n1 b1 sp1 = Inr (batch', sp')"
      by (auto split: sum.splits)
    from Cons.prems have s: "src \<in> set sources_order" "set rest \<subseteq> set sources_order" by auto
    from visit_mbox_count [OF s(1) v Cons.prems(3)] Cons.IH [OF c s(2) Cons.prems(3)]
    show ?thesis by simp
  qed
qed

lemma collect_eml_count:
  "collect ev rot srcs needed batch sp = Inr (batch', sp') \<Longrightarrow> set srcs \<subseteq> set sources_order
   \<Longrightarrow> n \<in> set eml_directories
   \<Longrightarrow> get sp (''eml_'' @ n) 0 - count_from n batch \<le> get sp' (''eml_'' @ n) 0 - count_from n batch'"
proof (induction srcs arbitrary: needed batch sp)
  case Nil
  then show ?case by simp
next
  case (Cons src rest)
  show ?case
  proof (cases "needed \<le> 0")
    case True
    with Cons.prems show ?thesis by simp
  next
    case False
    with Cons.prems obtain n1 b1 sp1 where
      v: "visit ev rot src needed batch sp = Inr (n1, b1, sp1)" and
      c: "collect ev rot rest n1 b1 sp1 = Inr (batch', sp')"
      by (auto split: sum.splits)
    from Cons.prems have s: "src \<in> set sources_order" "set rest \<subseteq> set sources_order" by auto
    from visit_eml_count [OF s(1) v Cons.prems(3)] Cons.IH [OF c s(2) Cons.prems(3)]
    show ?thesis by simp
  qed
qed

lemma main_counts:
  assumes "main ev st = Inr (batch, st')"
  shows "n \<in> set mbox_files \<Longrightarrow>
           get (source_progress st') (''mbox_'' @ n) 0
             = get (source_progress st) (''mbox_'' @ n) 0 + count_from n batch"
    and "n \<in> set eml_directories \<Longrightarrow>
           get (source_progress st) (''eml_'' @ n) 0 + count_from n batch
             \<le> get (source_progress st') (''eml_'' @ n) 0"
  using collect_mbox_count [OF main_collect [OF assms], of n]
    collect_eml_count [OF main_collect [OF assms], of n]
  by (simp_all add: set_rotated count_from_def)

lemma visit_returns:
  "enron ev \<noteq> Malformed \<Longrightarrow> \<exists>r. visit ev rot src needed batch sp = Inr r"
  by (cases "enron ev") (simp_all add: visit_def Let_def split: option.splits)

lemma collect_returns:
  "enron ev \<noteq> Malformed \<Longrightarrow> \<exists>r. collect ev rot srcs needed batch sp = Inr r"
proof (induction srcs arbitrary: needed batch sp)
  case Nil
  then show ?case by simp
next
  case (Cons src rest)
  from visit_returns [OF Cons.prems, of rot src needed batch sp]
  obtain n1 b1 sp1 where "visit ev rot src needed batch sp = Inr (n1, b1, sp1)"
    by (metis prod_cases3)
  with Cons.IH [OF Cons.prems, of n1 b1 sp1] show ?case by simp
qed

lemma main_returned:
  assumes "enron ev \<noteq> Malformed"
  shows "main ev st = Inr (returned ev st, persisted ev st)"
proof -
  from collect_returns [OF assms, of "rotation_number st + 1"
      "rotated_sources (rotation_number st + 1)" BATCH_SIZE "[]" "source_progress st"]
  obtain b sp where "collect ev (rotation_number st + 1) (rotated_sources (rotation_number st + 1))
      BATCH_SIZE [] (source_progress st) = Inr (b, sp)"
    by (metis prod.exhaust)
  then have "\<exists>r. main ev st = Inr r"
    by (auto simp: main_def get_next_rotation_batch_def Let_def split: prod.splits)
  then obtain r where "main ev st = Inr r" ..
  then show ?thesis
    by (cases r) (simp add: returned_def persisted_def)
qed

text \<open>
  Claim C7 (as amended). For every key, the offset in \<open>source_progress\<close> that a rotation
  leaves in the state file is at least the offset it found there (an absent key reads as
  0), and the offset of the Enron source is never written, whatever number of records is
  sampled from it. For a directory or an mbox the rotation stores the previous offset
  plus the number of entries it took: with \<open>needed\<close> the batch size less what the
  sources earlier in the rotated order consumed, a directory that exists gets the
  previous offset plus the number of files in the slice \<open>[offset : offset + needed]\<close>
  of its sorted listing, an mbox that exists the previous offset plus the number of
  messages \<open>parse_mbox_batch\<close> returned; a source that is reached with nothing needed, or
  whose path does not exist, keeps its entry. The advance of an mbox offset is the number
  of records of the batch that come from that mbox; the advance of a directory offset is
  at least the number of records from that directory (a file that fails to parse is
  stepped over and returns no record).
\<close>

theorem source_progress_update:
  "get (source_progress st) k 0 \<le> get (source_progress (persisted ev st)) k 0
   \<and> source_progress (persisted ev st) ''enron_enron'' = source_progress st ''enron_enron''
   \<and> (main ev st = Inr (batch, st') \<longrightarrow>
        rotated_sources (rotation_number st + 1) = pre @ (ty, name) # post \<longrightarrow>
        source_progress st' (ty @ ''_'' @ name) =
          (let key = ty @ ''_'' @ name;
               off = get (source_progress st) key 0;
               needed = BATCH_SIZE - sum_list (map
                  (consumed (source_progress st) (source_progress st') [] batch) pre)
           in if needed \<le> 0 then source_progress st key
              else if ty = ''eml'' then
                (case eml_dir ev name of
                   None \<Rightarrow> source_progress st key
                 | Some files \<Rightarrow> Some (off + int (length (py_slice files off (off + needed)))))
              else if ty = ''mbox'' then
                (case mbox ev name of
                   None \<Rightarrow> source_progress st key
                 | Some msgs \<Rightarrow> Some (off + int (length (parse_mbox_batch msgs off needed))))
              else source_progress st key))
   \<and> (main ev st = Inr (batch, st') \<longrightarrow> n \<in> set mbox_files \<longrightarrow>
        get (source_progress st') (''mbox_'' @ n) 0
          = get (source_progress st) (''mbox_'' @ n) 0 + count_from n batch)
   \<and> (main ev st = Inr (batch, st') \<longrightarrow> n \<in> set eml_directories \<longrightarrow>
        get (source_progress st) (''eml_'' @ n) 0 + count_from n batch
          \<le> get (source_progress st') (''eml_'' @ n) 0)"
proof -
  have a: "get (source_progress st) k 0 \<le> get (source_progress (persisted ev st)) k 0
      \<and> source_progress (persisted ev st) ''enron_enron'' = source_progress st ''enron_enron''"
    using main_progress [of ev st]
    by (auto simp: persisted_def split: sum.splits)
  have b: "source_progress st' (ty @ ''_'' @ name) =
          (let key = ty @ ''_'' @ name;
               off = get (source_progress st) key 0;
               needed = BATCH_SIZE - sum_list (map
                  (consumed (source_progress st) (source_progress st') [] batch) pre)
           in if needed \<le> 0 then source_progress st key
              else if ty = ''eml'' then
                (case eml_dir ev name of
                   None \<Rightarrow> source_progress st key
                 | Some files \<Rightarrow> Some (off + int (length (py_slice files off (off + needed)))))
              else if ty = ''mbox'' then
                (case mbox ev name of
                   None \<Rightarrow> source_progress st key
                 | Some msgs \<Rightarrow> Some (off + int (length (parse_mbox_batch msgs off needed))))
              else source_progress st key)"
    if "main ev st = Inr (batch, st')"
      and "rotated_sources (rotation_number st + 1) = pre @ (ty, name) # post"
    using main_offset [OF that]
    by (simp add: offset_after_def source_key_def Let_def)
  from a b main_counts [of ev st batch st' n] show ?thesis
    by blast
qed

theorem source_progress_update_witness:
  "source_progress (persisted two_sources initial_state) ''eml_opened_emails'' = Some 2
   \<and> count_from ''opened_emails'' (returned two_sources initial_state) \<le> 2
   \<and> source_progress (persisted two_sources initial_state) ''mbox_Starred2.mbox'' = Some 1
   \<and> count_from ''Starred2.mbox'' (returned two_sources initial_state) = 1
   \<and> source_progress (persisted two_sources initial_state) ''enron_enron'' = None"
proof -
  let ?b = "returned two_sources initial_state"
  let ?s = "persisted two_sources initial_state"
  let ?post = "[(''mbox'', ''Starred3.mbox''), (''eml'', ''starred_emails''),
     (''mbox'', ''Opened2.mbox''), (''mbox'', ''Opened3.mbox''), (''mbox'', ''Inbox-001.mbox''),
     (''mbox'', ''Sent-003.mbox''), (''mbox'', ''Inbox-002.mbox''), (''enron'', ''enron''),
     (''eml'', ''Inbox-001'')]"
  have m: "main two_sources initial_state = Inr (?b, ?s)"
    by (rule main_returned) (simp add: two_sources_def)
  have r: "rotated_sources (rotation_number initial_state + 1)
      = (''eml'', ''opened_emails'') # (''mbox'', ''Starred2.mbox'') # ?post"
    by (simp add: initial_state_def rotated_sources_rotate sources_order_def)
  have z: "source_progress initial_state = Map.empty"
    by (simp add: initial_state_def)
  have f: "eml_dir two_sources ''opened_emails'' = Some [None, Some Map.empty]"
    "mbox two_sources ''Starred2.mbox'' = Some [Some Map.empty]"
    by (simp_all add: two_sources_def)
  have e: "source_progress ?s ''eml_opened_emails'' = Some 2"
    using source_progress_update [of initial_state "''eml_opened_emails''" two_sources ?b ?s "[]"
        "''eml''" "''opened_emails''" "(''mbox'', ''Starred2.mbox'') # ?post" "''Starred2.mbox''"]
      m r
    by (simp add: z f get_def BATCH_SIZE_def py_slice_def py_index_def)
  have c: "consumed Map.empty (source_progress ?s) [] ?b (''eml'', ''opened_emails'') = 2"
    by (simp add: consumed_def source_key_def get_def e)
  have x: "source_progress ?s ''mbox_Starred2.mbox'' = Some 1
      \<and> count_from ''Starred2.mbox'' ?b = 1
      \<and> count_from ''opened_emails'' ?b \<le> 2
      \<and> source_progress ?s ''enron_enron'' = None"
    using source_progress_update [of initial_state "''eml_opened_emails''" two_sources ?b ?s
        "[(''eml'', ''opened_emails'')]" "''mbox''" "''Starred2.mbox''" ?post "''Starred2.mbox''"]
      source_progress_update [of initial_state "''eml_opened_emails''" two_sources ?b ?s "[]"
        "''eml''" "''opened_emails''" "(''mbox'', ''Starred2.mbox'') # ?post" "''opened_emails''"]
      m r e
    by (auto simp: z c f get_def BATCH_SIZE_def parse_mbox_batch_def
        mbox_files_def eml_directories_def)
  from e x show ?thesis by blast
qed

text \<open>
  Claim C7 as stated fails for the Enron source: with the Enron corpus as the only
  existing source, a rotation returns one record from it and leaves its offset at 0.
\<close>

theorem enron_offset_counterexample:
  "total_processed (persisted enron_only initial_state) = 1
   \<and> get (source_progress (persisted enron_only initial_state)) ''enron_enron'' 0
       \<noteq> get (source_progress initial_state) ''enron_enron'' 0 + 1"
  by code_simp

section \<open>Deduplication\<close>

lemma track_dom:
  "dom (fst (track_unique batch hashes n)) = dom hashes \<union> get_email_hash ` set batch"
  by (induction batch arbitrary: hashes n) (auto simp: Let_def)

lemma track_count:
  "snd (track_unique batch hashes n)
     = n + int (card (get_email_hash ` set batch - dom hashes))"
proof (induction batch arbitrary: hashes n)
  case Nil
  then show ?case by simp
next
  case (Cons e batch)
  let ?h = "get_email_hash e"
  let ?X = "get_email_hash ` set batch"
  show ?case
  proof (cases "hashes ?h = None")
    case False
    then have "insert ?h ?X - dom hashes = ?X - dom hashes" by auto
    with False Cons.IH [of hashes n] show ?thesis by (auto simp: Let_def)
  next
    case True
    have fin: "finite (?X - insert ?h (dom hashes))" by simp
    have eq: "insert ?h ?X - dom hashes = insert ?h (?X - insert ?h (dom hashes))"
      using True by auto
    have "card (insert ?h ?X - dom hashes) = Suc (card (?X - insert ?h (dom hashes)))"
      unfolding eq using fin by (subst card_insert_disjoint) auto
    moreover have "snd (track_unique batch (hashes(?h \<mapsto> True)) (n + 1))
        = n + 1 + int (card (?X - dom (hashes(?h \<mapsto> True))))"
      by (rule Cons.IH)
    ultimately show ?thesis using True by (simp add: Let_def)
  qed
qed

text \<open>
  Claim C8. A record whose fingerprint is already in \<open>processed_hashes\<close> adds nothing to
  the count of new records and leaves the set alone; a record with an unseen fingerprint
  adds exactly one and its fingerprint is stored. Over a whole batch the count grows by
  the number of distinct unseen fingerprints, so a record selected twice counts once.
\<close>

theorem no_double_counting:
  "(hashes (get_email_hash e) \<noteq> None \<longrightarrow> track_unique [e] hashes n = (hashes, n))
   \<and> (hashes (get_email_hash e) = None \<longrightarrow>
        track_unique [e] hashes n = (hashes(get_email_hash e \<mapsto> True), n + 1))
   \<and> dom (fst (track_unique batch hashes n)) = dom hashes \<union> get_email_hash ` set batch
   \<and> snd (track_unique batch hashes n)
        = n + int (card (get_email_hash ` set batch - dom hashes))"
  using track_dom [of batch hashes n] track_count [of batch hashes n]
  by (simp add: Let_def)

theorem no_double_counting_witness:
  "track_unique [[''subject'' \<mapsto> ''Hi'']]
      [get_email_hash [''subject'' \<mapsto> ''Hi''] \<mapsto> True] 0
     = ([get_email_hash [''subject'' \<mapsto> ''Hi''] \<mapsto> True], 0)
   \<and> track_unique [[''subject'' \<mapsto> ''Hi'']] Map.empty 0
     = ([get_email_hash [''subject'' \<mapsto> ''Hi''] \<mapsto> True], 1)
   \<and> snd (track_unique [[''subject'' \<mapsto> ''Hi''], [''subject'' \<mapsto> ''Hi'']] Map.empty 0) = 1"
  using no_double_counting [of "[get_email_hash [''subject'' \<mapsto> ''Hi''] \<mapsto> True]"
      "[''subject'' \<mapsto> ''Hi'']" 0 "[]"]
    no_double_counting [of Map.empty "[''subject'' \<mapsto> ''Hi'']" 0
      "[[''subject'' \<mapsto> ''Hi''], [''subject'' \<mapsto> ''Hi'']]"]
  by simp

section \<open>Top-level domain of a pseudonym\<close>

lemma after_last_append:
  "d \<notin> set t \<Longrightarrow> after_last d (s @ d # t) = t"
proof -
  assume "d \<notin> set t"
  then have "takeWhile (\<lambda>c. c \<noteq> d) (rev t @ d # rev s) = rev t"
    by (subst takeWhile_append2) auto
  then show ?thesis by (simp add: after_last_def)
qed

lemma split_length: "length (split d (s @ d # t)) \<ge> 2"
proof (induction s)
  case Nil
  then show ?case by (cases t) (auto split: list.splits)
next
  case (Cons c s)
  then show ?case by (auto split: list.splits)
qed

lemma split_nonempty: "split d s \<noteq> []"
  by (induction s) (auto split: list.splits)

lemma split_no_delim: "d \<notin> set s \<Longrightarrow> split d s = [s]"
  by (induction s) (auto split: list.splits)

lemma split_append: "d \<notin> set x \<Longrightarrow> split d (x @ d # r) = x # split d r"
  by (induction x) (auto split: list.splits)

lemma split_last: "d \<notin> set t \<Longrightarrow> last (split d (s @ d # t)) = t"
proof (induction s)
  case Nil
  then show ?case by (simp add: split_no_delim)
next
  case (Cons c s)
  then show ?case using split_nonempty [of d "s @ d # t"] split_length [of d s t]
    by (auto split: list.splits)
qed

text \<open>
  Claim C3 (as amended). \<open>hash_email\<close> keeps the top-level domain: an address whose last
  \<open>@\<close> is followed by a domain with a dot gets a pseudonym that ends in \<open>@example.\<close> and the
  text after the last dot, so two addresses with the same top-level domain get the same
  suffix. \<open>generate_anonymous_email\<close> does not: an address it has not seen gets
  \<open>user_<hash>@example.com\<close>, whatever its domain.
\<close>

theorem pseudonym_tld:
  assumes "CHR ''@'' \<notin> set d" and "CHR ''@'' \<notin> set tld" and "CHR ''.'' \<notin> set tld"
  shows "hash_email (loc @ ''@'' @ d @ ''.'' @ tld)
       = ''user_'' @ take 8 (sha256_hex (utf8 (lower (loc @ ''@'' @ d @ ''.'' @ tld)
                                              @ ANONYMIZATION_SALT)))
         @ ''@example.'' @ tld
    \<and> (cache (lower original) = None \<longrightarrow>
         fst (generate_anonymous_email cache original)
       = ''user_'' @ take 8 (md5_hex (utf8 (lower original))) @ ''@example.com'')"
proof -
  have "CHR ''@'' \<notin> set (d @ CHR ''.'' # tld)" using assms by simp
  then have dom: "after_last CHR ''@'' (loc @ CHR ''@'' # d @ CHR ''.'' # tld) = d @ CHR ''.'' # tld"
    by (rule after_last_append)
  have e: "hash_email (loc @ ''@'' @ d @ ''.'' @ tld)
       = ''user_'' @ take 8 (sha256_hex (utf8 (lower (loc @ ''@'' @ d @ ''.'' @ tld)
                                              @ ANONYMIZATION_SALT)))
         @ ''@example.'' @ tld"
    using split_length [of "CHR ''.''" d tld] split_last [OF assms(3), of d]
    by (simp add: hash_email_def dom Let_def)
  have p: "cache (lower original) = None \<longrightarrow>
         fst (generate_anonymous_email cache original)
       = ''user_'' @ take 8 (md5_hex (utf8 (lower original))) @ ''@example.com''"
    by (simp add: generate_anonymous_email_def Let_def)
  from e p show ?thesis by (rule conjI)
qed

theorem pseudonym_tld_witness:
  "hash_email ''alice@foo.org''
     = ''user_'' @ take 8 (sha256_hex (utf8 (lower ''alice@foo.org'' @ ANONYMIZATION_SALT)))
       @ ''@example.org''
   \<and> hash_email ''bob@foo.org''
     = ''user_'' @ take 8 (sha256_hex (utf8 (lower ''bob@foo.org'' @ ANONYMIZATION_SALT)))
       @ ''@example.org''
   \<and> fst (generate_anonymous_email Map.empty ''alice@foo.org'')
     = ''user_'' @ take 8 (md5_hex (utf8 (lower ''alice@foo.org''))) @ ''@example.com''"
  using pseudonym_tld [where d = "''foo''" and tld = "''org''" and loc = "''alice''"
      and cache = Map.empty and original = "''alice@foo.org''"]
    pseudonym_tld [where d = "''foo''" and tld = "''org''" and loc = "''bob''"
      and cache = Map.empty and original = "''alice@foo.org''"]
  by simp

text \<open>
  Claim C3 as stated fails for the personal scrubber: the pseudonym of \<open>alice@foo.org\<close>
  ends in \<open>.com\<close>.
\<close>

theorem personal_tld_counterexample:
  "fst (generate_anonymous_email Map.empty ''alice@foo.org'') = ''user_6f796f9d@example.com''
   \<and> after_last CHR ''.'' (fst (generate_anonymous_email Map.empty ''alice@foo.org'')) \<noteq> ''org''"
  by code_simp

section \<open>Referential consistency\<close>

lemma generate_ok:
  "cache_ok c \<Longrightarrow> cache_ok (snd (generate_anonymous_email c x))"
  by (auto simp: cache_ok_def generate_anonymous_email_def Let_def split: option.splits)

lemma generate_value:
  "cache_ok c \<Longrightarrow> fst (generate_anonymous_email c x)
     = ''user_'' @ take 8 (md5_hex (utf8 (lower x))) @ ''@example.com''"
  by (auto simp: cache_ok_def generate_anonymous_email_def Let_def split: option.splits)

lemma resolve_all_ok: "cache_ok c \<Longrightarrow> cache_ok (resolve_all c xs)"
  by (induction xs arbitrary: c) (simp_all add: generate_ok)

lemma md5_jane: "take 8 (md5_hex (utf8 (lower ''jane.doe@corp.com''))) = ''d0e3752d''"
  by code_simp

text \<open>
  Claim C5. In a run that starts with the empty cache, whatever identifiers \<open>xs\<close> have been
  resolved before, \<open>generate_anonymous_email\<close> returns for an address the pseudonym built
  from the hash of the lower-cased address, so every call on the same address returns the
  same string; for \<open>jane.doe@corp.com\<close> it is \<open>user_d0e3752d@example.com\<close>. The Enron
  scrubber's \<open>hash_email\<close> reads no state at all.
\<close>

theorem pseudonym_consistent:
  "fst (generate_anonymous_email (resolve_all Map.empty xs) x)
     = ''user_'' @ take 8 (md5_hex (utf8 (lower x))) @ ''@example.com''
   \<and> fst (generate_anonymous_email (resolve_all Map.empty xs) x)
     = fst (generate_anonymous_email (resolve_all Map.empty ys) x)
   \<and> fst (generate_anonymous_email (resolve_all Map.empty xs) ''jane.doe@corp.com'')
     = ''user_d0e3752d@example.com''"
proof -
  have "cache_ok Map.empty" by (simp add: cache_ok_def)
  then have "cache_ok (resolve_all Map.empty xs)" "cache_ok (resolve_all Map.empty ys)"
    by (rule resolve_all_ok)+
  then show ?thesis by (simp add: generate_value md5_jane)
qed

section \<open>Folded header lines\<close>

lemma split_join:
  "ls \<noteq> [] \<Longrightarrow> \<forall>x\<in>set ls. d \<notin> set x \<Longrightarrow> split d (join d ls) = ls"
proof (induction d ls rule: join.induct)
  case (1 d)
  then show ?case by simp
next
  case (2 d x)
  then show ?case by (simp add: split_no_delim)
next
  case (3 d x y ys)
  then show ?case by (simp add: split_append)
qed

lemma parse_loop_folded:
  assumes "\<forall>x\<in>set pre. strip x \<noteq> []" and "strip l \<noteq> []"
    and "startswith l CHR '' '' \<or> startswith l CHR 0x09"
  shows "parse_loop (pre @ l # post) False headers body_lines
       = parse_loop (pre @ post) False headers body_lines"
  using assms
  by (induction pre arbitrary: headers) (auto simp: Let_def)

text \<open>
  Claim C10. A line of the header section (every line before it is non-blank, and it is
  not blank itself) that starts with a space or a tab is dropped: the record returned for
  the message is the one the parser builds from the other lines alone, and it is the
  record of the message without that line whenever that message is not empty.
\<close>

theorem folded_header_discarded:
  assumes "\<forall>x\<in>set pre. strip x \<noteq> []" and "strip l \<noteq> []"
    and "startswith l CHR '' '' \<or> startswith l CHR 0x09"
    and "\<forall>x\<in>set (pre @ l # post). CHR 0x0A \<notin> set x"
  shows "parse_email_message (join CHR 0x0A (pre @ l # post)) = Some (parse_lines (pre @ post))
    \<and> (join CHR 0x0A (pre @ post) \<noteq> [] \<longrightarrow>
         parse_email_message (join CHR 0x0A (pre @ l # post))
       = parse_email_message (join CHR 0x0A (pre @ post)))"
proof -
  have sj: "split CHR 0x0A (join CHR 0x0A (pre @ l # post)) = pre @ l # post"
    using assms(4) by (intro split_join) auto
  have "l \<noteq> []" using assms(2) by (auto simp: strip_def)
  then have "pre @ l # post \<noteq> [[]]" by (cases pre) auto
  with sj have ne: "join CHR 0x0A (pre @ l # post) \<noteq> []" by auto
  have pl: "parse_lines (pre @ l # post) = parse_lines (pre @ post)"
    by (simp add: parse_lines_def parse_loop_folded [OF assms(1-3)])
  have first: "parse_email_message (join CHR 0x0A (pre @ l # post)) = Some (parse_lines (pre @ post))"
    by (simp add: parse_email_message_def ne sj pl)
  have "parse_email_message (join CHR 0x0A (pre @ post)) = Some (parse_lines (pre @ post))"
    if "join CHR 0x0A (pre @ post) \<noteq> []"
  proof -
    from that have "pre @ post \<noteq> []" by auto
    then have "split CHR 0x0A (join CHR 0x0A (pre @ post)) = pre @ post"
      using assms(4) by (intro split_join) auto
    with that show ?thesis by (simp add: parse_email_message_def)
  qed
  with first show ?thesis by simp
qed

theorem folded_header_discarded_witness:
  "parse_email_message (join CHR 0x0A [''Subject: Hi'', '' folded: x'', ''From: a'', '''', ''body''])
     = Some (parse_lines [''Subject: Hi'', ''From: a'', '''', ''body''])
   \<and> parse_email_message (join CHR 0x0A [''Subject: Hi'', '' folded: x'', ''From: a'', '''', ''body''])
     = parse_email_message (join CHR 0x0A [''Subject: Hi'', ''From: a'', '''', ''body''])
   \<and> map_option p_subject (parse_email_message
        (join CHR 0x0A [''Subject: Hi'', '' folded: x'', ''From: a'', '''', ''body''])) = Some ''Hi''"
proof -
  have a: "\<forall>x\<in>set [''Subject: Hi'']. strip x \<noteq> []"
    by (simp add: strip_def is_space_def code_def)
  have b: "strip '' folded: x'' \<noteq> []"
    by (simp add: strip_def is_space_def code_def)
  have c: "startswith '' folded: x'' CHR '' '' \<or> startswith '' folded: x'' CHR 0x09"
    by (simp add: startswith_def)
  have d: "\<forall>x\<in>set ([''Subject: Hi''] @ '' folded: x'' # [''From: a'', '''', ''body'']). CHR 0x0A \<notin> set x"
    by simp
  have e: "map_option p_subject (parse_email_message
        (join CHR 0x0A [''Subject: Hi'', '' folded: x'', ''From: a'', '''', ''body''])) = Some ''Hi''"
    by code_simp
  have ne: "join CHR 0x0A ([''Subject: Hi''] @ [''From: a'', '''', ''body'']) \<noteq> []"
    by simp
  show ?thesis
    using folded_header_discarded [OF a b c d] ne e by auto
qed

end
